theory Spec2Isabelle
  imports Complex_Main "HOL-Library.Log_Nat" "HOL-Library.Sublist" "HOL-Library.Multiset"
begin

section \<open>Errors raised by the Python code\<close>

datatype error = IndexError | KeyError | ZeroDivisionError | OverflowError

section \<open>The ordered-map substrate (data\_structures, algorithms)\<close>

text \<open>
  \<^verbatim>\<open>betterbst.py\<close> imports \<^verbatim>\<open>BinarySearchTree\<close>, \<^verbatim>\<open>TreeNode\<close>, \<^verbatim>\<open>ArrayList\<close> and
  \<^verbatim>\<open>mergesort\<close> from packages whose files are not part of the sources at hand. What the
  Builder and the Filter need of them is modelled below from the specification.

  A node reference is either Python's \<^verbatim>\<open>None\<close> or a \<^verbatim>\<open>TreeNode\<close> with the attributes
  \<^verbatim>\<open>key\<close>, \<^verbatim>\<open>item\<close>, \<^verbatim>\<open>left\<close> and \<^verbatim>\<open>right\<close> that \<^verbatim>\<open>_filter_traverse_aux\<close> reads.
\<close>

datatype ('k, 'i) node = NoneNode | TreeNode 'k 'i "('k, 'i) node" "('k, 'i) node"

text \<open>The tree object: its root and its incrementally tracked size (\<^verbatim>\<open>len(self)\<close>).\<close>

record ('k, 'i) BinarySearchTree =
  root :: "('k, 'i) node"
  len :: nat

text \<open>\<^verbatim>\<open>super().__init__()\<close>: the tree is created empty.\<close>

definition empty_tree :: "('k, 'i) BinarySearchTree" where
  "empty_tree = \<lparr>root = NoneNode, len = 0\<rparr>"

text \<open>
  Modelled from the spec: the substrate's point lookup (\<^verbatim>\<open>BinarySearchTree.__getitem__\<close>,
  missing from the sources): "lookup(key) -> value or not-found".
\<close>

fun get_tree_node :: "('k::linorder, 'i) node \<Rightarrow> 'k \<Rightarrow> 'i option" where
  "get_tree_node NoneNode k = None"
| "get_tree_node (TreeNode ck ci l r) k =
     (if k = ck then Some ci
      else if k < ck then get_tree_node l k
      else get_tree_node r k)"

definition getitem :: "('k::linorder, 'i) BinarySearchTree \<Rightarrow> 'k \<Rightarrow> error + 'i" where
  "getitem self k = (case get_tree_node (root self) k of None \<Rightarrow> Inl KeyError | Some i \<Rightarrow> Inr i)"

text \<open>
  Modelled from the spec: \<^verbatim>\<open>key in tree\<close> (\<^verbatim>\<open>BinarySearchTree.__contains__\<close>, missing from
  the sources) is the lookup's found / not-found outcome.
\<close>

definition contains :: "('k::linorder, 'i) BinarySearchTree \<Rightarrow> 'k \<Rightarrow> bool" where
  "contains self k = (case getitem self k of Inl e \<Rightarrow> False | Inr i \<Rightarrow> True)"

text \<open>
  Modelled from the spec: the substrate's standard key insertion
  (\<^verbatim>\<open>BinarySearchTree.__setitem__\<close>, missing from the sources): keys are unique, smaller keys
  go to the left and larger keys to the right, "inserting an existing key overwrites it",
  and the size is tracked incrementally (one more for every node created).
\<close>

fun insert_aux :: "('k::linorder, 'i) node \<Rightarrow> 'k \<Rightarrow> 'i \<Rightarrow> ('k, 'i) node" where
  "insert_aux NoneNode k i = TreeNode k i NoneNode NoneNode"
| "insert_aux (TreeNode ck ci l r) k i =
     (if k < ck then TreeNode ck ci (insert_aux l k i) r
      else if k > ck then TreeNode ck ci l (insert_aux r k i)
      else TreeNode ck i l r)"

definition setitem ::
  "('k::linorder, 'i) BinarySearchTree \<Rightarrow> 'k \<Rightarrow> 'i \<Rightarrow> ('k, 'i) BinarySearchTree" where
  "setitem self k i =
     \<lparr>root = insert_aux (root self) k i,
      len = (if get_tree_node (root self) k = None then len self + 1 else len self)\<rparr>"

text \<open>
  Modelled from the spec: the substrate's in-order iteration (missing from the sources),
  "in-order iteration yielding (key, value) pairs": left subtree, node, right subtree.
\<close>

fun inorder_aux :: "('k, 'i) node \<Rightarrow> ('k \<times> 'i) list" where
  "inorder_aux NoneNode = []"
| "inorder_aux (TreeNode k i l r) = inorder_aux l @ (k, i) # inorder_aux r"

definition inorder :: "('k, 'i) BinarySearchTree \<Rightarrow> ('k \<times> 'i) list" where
  "inorder self = inorder_aux (root self)"

text \<open>
  Modelled from the spec: \<^verbatim>\<open>mergesort(elements, key)\<close> (\<^verbatim>\<open>algorithms.mergesort\<close>, missing
  from the sources), "a general-purpose stable merge sort ... parameterized by a
  key-extraction function": the sequence is cut in two halves, each half is sorted, and the
  merge takes from the left half on ties.
\<close>

fun merge_by :: "('a \<Rightarrow> 'k::linorder) \<Rightarrow> 'a list \<Rightarrow> 'a list \<Rightarrow> 'a list" where
  "merge_by key [] l2 = l2"
| "merge_by key (a # l1) [] = a # l1"
| "merge_by key (a # l1) (b # l2) =
     (if key a \<le> key b then a # merge_by key l1 (b # l2)
      else b # merge_by key (a # l1) l2)"

function mergesort :: "'a list \<Rightarrow> ('a \<Rightarrow> 'k::linorder) \<Rightarrow> 'a list" where
  "mergesort l key =
     (if length l \<le> 1 then l
      else merge_by key (mergesort (take (length l div 2) l) key)
                        (mergesort (drop (length l div 2) l) key))"
  by pat_completeness auto
termination
  by (relation "measure (\<lambda>(l, key). length l)") auto

declare mergesort.simps [simp del]

text \<open>
  Modelled from the spec: \<^verbatim>\<open>elements[mid]\<close> on an \<^verbatim>\<open>ArrayList\<close> (missing from the sources).
  A position outside \<open>0 .. len - 1\<close> is an error of the read, never a value.
\<close>

definition getitem_list :: "'a list \<Rightarrow> int \<Rightarrow> error + 'a" where
  "getitem_list elements index =
     (if 0 \<le> index \<and> index < int (length elements) then Inr (elements ! nat index)
      else Inl IndexError)"

section \<open>betterbst.py: the Balanced Builder\<close>

text \<open>\<^verbatim>\<open>__sort_elements\<close>: \<^verbatim>\<open>mergesort(elements, lambda x: x[0])\<close>.\<close>

definition sort_elements :: "('k::linorder \<times> 'i) list \<Rightarrow> ('k \<times> 'i) list" where
  "sort_elements elements = mergesort elements fst"

text \<open>
  \<^verbatim>\<open>_build_subtree_aux(self, elements, start, end)\<close>. The tree \<^verbatim>\<open>self\<close> is threaded through
  the calls: the middle pair is inserted first, then the left range is built, then the
  right range. \<^verbatim>\<open>start\<close> and \<^verbatim>\<open>end\<close> are Python integers; \<^verbatim>\<open>//\<close> is floor division.
\<close>

function build_subtree_aux ::
  "('k::linorder, 'i) BinarySearchTree \<Rightarrow> ('k \<times> 'i) list \<Rightarrow> int \<Rightarrow> int
     \<Rightarrow> error + ('k, 'i) BinarySearchTree" where
  "build_subtree_aux self elements start endi =
     (if start > endi then Inr self
      else
        let mid = (start + endi) div 2 in
        case getitem_list elements mid of
          Inl e \<Rightarrow> Inl e
        | Inr (key, item) \<Rightarrow>
            (case build_subtree_aux (setitem self key item) elements start (mid - 1) of
               Inl e \<Rightarrow> Inl e
             | Inr self1 \<Rightarrow> build_subtree_aux self1 elements (mid + 1) endi))"
  by pat_completeness auto
termination
  by (relation "measure (\<lambda>(self, elements, start, endi). nat (endi - start + 1))") auto

declare build_subtree_aux.simps [simp del]

text \<open>\<^verbatim>\<open>__build_balanced_tree\<close>: the whole index range \<open>0 .. len(elements) - 1\<close>.\<close>

definition build_balanced_tree ::
  "('k::linorder, 'i) BinarySearchTree \<Rightarrow> ('k \<times> 'i) list \<Rightarrow> error + ('k, 'i) BinarySearchTree" where
  "build_balanced_tree self elements =
     build_subtree_aux self elements 0 (int (length elements) - 1)"

text \<open>\<^verbatim>\<open>BetterBST.__init__\<close>: create the empty tree, sort, build.\<close>

definition BetterBST :: "('k::linorder \<times> 'i) list \<Rightarrow> error + ('k, 'i) BinarySearchTree" where
  "BetterBST elements =
     (let new_elements = sort_elements elements
      in build_balanced_tree empty_tree new_elements)"

text \<open>
  The sequence of \<^verbatim>\<open>self[key] = item\<close> calls that \<^verbatim>\<open>_build_subtree_aux\<close> makes on a range,
  in the order in which it makes them (the same recursion, recording instead of inserting).
\<close>

function insertion_order :: "('k \<times> 'i) list \<Rightarrow> int \<Rightarrow> int \<Rightarrow> ('k \<times> 'i) list" where
  "insertion_order elements start endi =
     (if start > endi then []
      else
        let mid = (start + endi) div 2 in
        case getitem_list elements mid of
          Inl e \<Rightarrow> []
        | Inr (key, item) \<Rightarrow>
            (key, item) # insertion_order elements start (mid - 1)
              @ insertion_order elements (mid + 1) endi)"
  by pat_completeness auto
termination
  by (relation "measure (\<lambda>(elements, start, endi). nat (endi - start + 1))") auto

declare insertion_order.simps [simp del]

section \<open>betterbst.py: the Pruned Range Filter\<close>

text \<open>
  \<^verbatim>\<open>_filter_traverse_aux(self, current, filter_func1, filter_func2, result)\<close> appends to the
  list \<^verbatim>\<open>result\<close>; the model returns the list after the call.
\<close>

fun filter_traverse_aux ::
  "('k, 'i) node \<Rightarrow> ('k \<Rightarrow> bool) \<Rightarrow> ('k \<Rightarrow> bool) \<Rightarrow> ('k \<times> 'i) list \<Rightarrow> ('k \<times> 'i) list" where
  "filter_traverse_aux NoneNode filter_func1 filter_func2 result = result"
| "filter_traverse_aux (TreeNode key item left right) filter_func1 filter_func2 result =
     (let result1 = (if filter_func1 key
                     then filter_traverse_aux left filter_func1 filter_func2 result
                     else result);
          result2 = (if filter_func1 key \<and> filter_func2 key
                     then result1 @ [(key, item)]
                     else result1)
      in if filter_func2 key
         then filter_traverse_aux right filter_func1 filter_func2 result2
         else result2)"

definition filter_keys ::
  "('k, 'i) BinarySearchTree \<Rightarrow> ('k \<Rightarrow> bool) \<Rightarrow> ('k \<Rightarrow> bool) \<Rightarrow> ('k \<times> 'i) list" where
  "filter_keys self filter_func1 filter_func2 =
     filter_traverse_aux (root self) filter_func1 filter_func2 []"

section \<open>The Builder with its two recursive calls swapped\<close>

text \<open>
  The variant the specification compares the Builder with: "Order of the two recursive calls
  does not affect the final tree shape". It is \<open>build_subtree_aux\<close> with the right range
  \<open>[mid + 1, end]\<close> built before the left range \<open>[start, mid - 1]\<close>; nothing else differs.
\<close>

function build_subtree_aux_swapped ::
  "('k::linorder, 'i) BinarySearchTree \<Rightarrow> ('k \<times> 'i) list \<Rightarrow> int \<Rightarrow> int
     \<Rightarrow> error + ('k, 'i) BinarySearchTree" where
  "build_subtree_aux_swapped self elements start endi =
     (if start > endi then Inr self
      else
        let mid = (start + endi) div 2 in
        case getitem_list elements mid of
          Inl e \<Rightarrow> Inl e
        | Inr (key, item) \<Rightarrow>
            (case build_subtree_aux_swapped (setitem self key item) elements (mid + 1) endi of
               Inl e \<Rightarrow> Inl e
             | Inr self1 \<Rightarrow> build_subtree_aux_swapped self1 elements start (mid - 1)))"
  by pat_completeness auto
termination
  by (relation "measure (\<lambda>(self, elements, start, endi). nat (endi - start + 1))") auto

declare build_subtree_aux_swapped.simps [simp del]

definition build_balanced_tree_swapped ::
  "('k::linorder, 'i) BinarySearchTree \<Rightarrow> ('k \<times> 'i) list \<Rightarrow> error + ('k, 'i) BinarySearchTree" where
  "build_balanced_tree_swapped self elements =
     build_subtree_aux_swapped self elements 0 (int (length elements) - 1)"

function insertion_order_swapped :: "('k \<times> 'i) list \<Rightarrow> int \<Rightarrow> int \<Rightarrow> ('k \<times> 'i) list" where
  "insertion_order_swapped elements start endi =
     (if start > endi then []
      else
        let mid = (start + endi) div 2 in
        case getitem_list elements mid of
          Inl e \<Rightarrow> []
        | Inr (key, item) \<Rightarrow>
            (key, item) # insertion_order_swapped elements (mid + 1) endi
              @ insertion_order_swapped elements start (mid - 1))"
  by pat_completeness auto
termination
  by (relation "measure (\<lambda>(elements, start, endi). nat (endi - start + 1))") auto

declare insertion_order_swapped.simps [simp del]

section \<open>Notions used to state the properties\<close>

text \<open>The keys stored in a tree, and the ordering invariant of the specification's data model:
  "for every node, all keys in its left subtree compare strictly less than the node's key,
  and all keys in its right subtree compare strictly greater".\<close>

fun keys_of :: "('k, 'i) node \<Rightarrow> 'k set" where
  "keys_of NoneNode = {}"
| "keys_of (TreeNode k i l r) = insert k (keys_of l \<union> keys_of r)"

fun bst_inv :: "('k::linorder, 'i) node \<Rightarrow> bool" where
  "bst_inv NoneNode = True"
| "bst_inv (TreeNode k i l r) =
     (bst_inv l \<and> bst_inv r \<and> (\<forall>x \<in> keys_of l. x < k) \<and> (\<forall>x \<in> keys_of r. k < x))"

text \<open>The height of a tree counts the nodes on a longest path from the root: an absent
  node has height 0, a single node height 1.\<close>

fun height :: "('k, 'i) node \<Rightarrow> nat" where
  "height NoneNode = 0"
| "height (TreeNode k i l r) = max (height l) (height r) + 1"

text \<open>The test a pair passes when its key passes both predicates.\<close>

definition both :: "('k \<Rightarrow> bool) \<Rightarrow> ('k \<Rightarrow> bool) \<Rightarrow> ('k \<times> 'i) \<Rightarrow> bool" where
  "both f1 f2 = (\<lambda>e. f1 (fst e) \<and> f2 (fst e))"

text \<open>One insertion, with the pair as one argument, for folding over a list of pairs.\<close>

definition ins_pair :: "('k::linorder \<times> 'i) \<Rightarrow> ('k, 'i) node \<Rightarrow> ('k, 'i) node" where
  "ins_pair e t = insert_aux t (fst e) (snd e)"

definition set_pair ::
  "('k::linorder \<times> 'i) \<Rightarrow> ('k, 'i) BinarySearchTree \<Rightarrow> ('k, 'i) BinarySearchTree" where
  "set_pair e self = setitem self (fst e) (snd e)"

text \<open>
  The tree that is rooted at the floor median of the index range \<open>[start, end]\<close> and has the
  trees of the two remaining sub-ranges as children. The Builder does not construct it in
  this way (it inserts pair by pair); that it ends up with this tree is a theorem below.
\<close>

function balanced :: "('k \<times> 'i) list \<Rightarrow> int \<Rightarrow> int \<Rightarrow> ('k, 'i) node" where
  "balanced elements start endi =
     (if start > endi then NoneNode
      else
        let mid = (start + endi) div 2 in
        case getitem_list elements mid of
          Inl e \<Rightarrow> NoneNode
        | Inr (key, item) \<Rightarrow>
            TreeNode key item (balanced elements start (mid - 1))
              (balanced elements (mid + 1) endi))"
  by pat_completeness auto
termination
  by (relation "measure (\<lambda>(elements, start, endi). nat (endi - start + 1))") auto

declare balanced.simps [simp del]

section \<open>minecraft\_block.py and minecraft\_checklist.py\<close>

text \<open>
  \<^verbatim>\<open>MinecraftItem\<close> and \<^verbatim>\<open>MinecraftBlock\<close>, with the attributes their initialisers set.
  Both classes have a \<^verbatim>\<open>name\<close> and a \<^verbatim>\<open>description\<close>; the item's fields carry the prefix
  \<open>item_\<close> here.
\<close>

record MinecraftItem =
  item_name :: string
  item_description :: string
  item_value :: int

record MinecraftBlock =
  name :: string
  description :: string
  hardness :: int
  item :: MinecraftItem

text \<open>
  \<^verbatim>\<open>MinecraftBlock.ratio\<close>: \<^verbatim>\<open>self.item.value / self.hardness\<close>. Python's true division of
  two integers raises \<^verbatim>\<open>ZeroDivisionError\<close> for a zero divisor, raises \<^verbatim>\<open>OverflowError\<close>
  when the quotient is too large for a float, and otherwise yields a float. Floats are not
  modelled: the division is the parameter \<open>truediv\<close>, into any linearly ordered type of keys,
  so that every result below holds for whatever rounding the division performs.
\<close>

definition ratio :: "(int \<Rightarrow> int \<Rightarrow> error + 'k) \<Rightarrow> MinecraftBlock \<Rightarrow> error + 'k" where
  "ratio truediv self =
     (if hardness self = 0 then Inl ZeroDivisionError
      else truediv (item_value (item self)) (hardness self))"

text \<open>\<^verbatim>\<open>MinecraftChecklist\<close>: its one attribute is the tree \<^verbatim>\<open>self.checklist\<close>.\<close>

record 'k MinecraftChecklist =
  checklist :: "('k, MinecraftBlock) BinarySearchTree"

text \<open>The loop of \<^verbatim>\<open>__init__\<close>: \<^verbatim>\<open>elements.append((block.ratio(), block))\<close> for each block.\<close>

fun ratio_elements ::
  "(int \<Rightarrow> int \<Rightarrow> error + 'k) \<Rightarrow> MinecraftBlock list \<Rightarrow> ('k \<times> MinecraftBlock) list
     \<Rightarrow> error + ('k \<times> MinecraftBlock) list" where
  "ratio_elements truediv [] elements = Inr elements"
| "ratio_elements truediv (block # blocks) elements =
     (case ratio truediv block of
        Inl e \<Rightarrow> Inl e
      | Inr r \<Rightarrow> ratio_elements truediv blocks (elements @ [(r, block)]))"

definition MinecraftChecklist_init ::
  "(int \<Rightarrow> int \<Rightarrow> error + 'k::linorder) \<Rightarrow> MinecraftBlock list \<Rightarrow> error + 'k MinecraftChecklist" where
  "MinecraftChecklist_init truediv blocks =
     (case ratio_elements truediv blocks [] of
        Inl e \<Rightarrow> Inl e
      | Inr elements \<Rightarrow>
          (case BetterBST elements of
             Inl e \<Rightarrow> Inl e
           | Inr tree \<Rightarrow> Inr \<lparr>checklist = tree\<rparr>))"

text \<open>\<^verbatim>\<open>add_block\<close>: the block is stored under its ratio only when
  \<^verbatim>\<open>key not in self.checklist\<close>.\<close>

definition add_block ::
  "(int \<Rightarrow> int \<Rightarrow> error + 'k::linorder) \<Rightarrow> 'k MinecraftChecklist \<Rightarrow> MinecraftBlock
     \<Rightarrow> error + 'k MinecraftChecklist" where
  "add_block truediv self block =
     (case ratio truediv block of
        Inl e \<Rightarrow> Inl e
      | Inr key \<Rightarrow>
          if \<not> contains (checklist self) key
          then Inr (self\<lparr>checklist := setitem (checklist self) key block\<rparr>)
          else Inr self)"

text \<open>
  \<^verbatim>\<open>get_optimal_blocks\<close>: the bounds are the smaller and the larger of the two ratios, the
  two filter functions are the strict comparisons with them, and the blocks of the filtered
  pairs are copied, in order, into the result array (modelled as the list of its cells).
\<close>

definition get_optimal_blocks ::
  "(int \<Rightarrow> int \<Rightarrow> error + 'k::linorder) \<Rightarrow> 'k MinecraftChecklist \<Rightarrow> MinecraftBlock
     \<Rightarrow> MinecraftBlock \<Rightarrow> error + MinecraftBlock list" where
  "get_optimal_blocks truediv self block1 block2 =
     (case ratio truediv block1 of
        Inl e \<Rightarrow> Inl e
      | Inr ratio1 \<Rightarrow>
          (case ratio truediv block2 of
             Inl e \<Rightarrow> Inl e
           | Inr ratio2 \<Rightarrow>
               let lower = min ratio1 ratio2;
                   upper = max ratio1 ratio2;
                   filtered = filter_keys (checklist self) (\<lambda>k. k > lower) (\<lambda>k. k < upper)
               in Inr (map snd filtered)))"

section \<open>The filter: auxiliary facts\<close>


lemma filter_traverse_aux_append:
  "filter_traverse_aux t f1 f2 acc = acc @ filter_traverse_aux t f1 f2 []"
proof (induction t arbitrary: acc)
  case NoneNode
  show ?case by simp
next
  case (TreeNode k i l r)
  let ?L = "filter_traverse_aux l f1 f2 []" and ?R = "filter_traverse_aux r f1 f2 []"
  have L: "filter_traverse_aux l f1 f2 acc = acc @ ?L" by (rule TreeNode.IH(1))
  have R: "\<And>a. filter_traverse_aux r f1 f2 a = a @ ?R" by (rule TreeNode.IH(2))
  have lhs: "filter_traverse_aux (TreeNode k i l r) f1 f2 acc =
      acc @ (if f1 k then ?L else []) @ (if f1 k \<and> f2 k then [(k, i)] else [])
          @ (if f2 k then ?R else [])"
    by (simp add: Let_def L R [of "acc @ ?L @ [(k, i)]"] R [of "acc @ ?L"] R [of acc])
  have rhs: "filter_traverse_aux (TreeNode k i l r) f1 f2 [] =
      (if f1 k then ?L else []) @ (if f1 k \<and> f2 k then [(k, i)] else [])
          @ (if f2 k then ?R else [])"
    by (simp add: Let_def R [of "?L @ [(k, i)]"] R [of "?L"])
  show ?case unfolding lhs rhs by simp
qed

lemma filter_traverse_aux_node:
  "filter_traverse_aux (TreeNode k i l r) f1 f2 [] =
     (if f1 k then filter_traverse_aux l f1 f2 [] else [])
     @ (if f1 k \<and> f2 k then [(k, i)] else [])
     @ (if f2 k then filter_traverse_aux r f1 f2 [] else [])"
  using filter_traverse_aux_append [of r f1 f2 "filter_traverse_aux l f1 f2 [] @ [(k, i)]"]
    filter_traverse_aux_append [of r f1 f2 "filter_traverse_aux l f1 f2 []"]
    filter_traverse_aux_append [of r f1 f2 "[(k, i)]"]
  by (simp add: Let_def)

lemma set_inorder_aux: "fst ` set (inorder_aux t) = keys_of t"
  by (induction t) (auto simp: image_Un)

lemma filter_traverse_aux_subseq:
  "subseq (filter_traverse_aux t f1 f2 []) (filter (both f1 f2) (inorder_aux t))"
proof (induction t)
  case NoneNode
  show ?case by simp
next
  case (TreeNode k i l r)
  let ?L = "filter_traverse_aux l f1 f2 []" and ?R = "filter_traverse_aux r f1 f2 []"
  let ?FL = "filter (both f1 f2) (inorder_aux l)" and ?FR = "filter (both f1 f2) (inorder_aux r)"
  let ?M = "if f1 k \<and> f2 k then [(k, i)] else []"
  have a: "subseq (if f1 k then ?L else []) ?FL" using TreeNode.IH(1) by simp
  have c: "subseq (if f2 k then ?R else []) ?FR" using TreeNode.IH(2) by simp
  have "subseq ((if f1 k then ?L else []) @ ?M @ (if f2 k then ?R else [])) (?FL @ ?M @ ?FR)"
    by (intro list_emb_append_mono a c subseq_order.order_refl)
  moreover have "filter (both f1 f2) (inorder_aux (TreeNode k i l r)) = ?FL @ ?M @ ?FR"
    by (simp add: both_def)
  ultimately show ?case by (simp only: filter_traverse_aux_node)
qed

lemma filter_traverse_aux_exact:
  assumes "bst_inv t"
    and "\<And>a b. a \<le> b \<Longrightarrow> f1 a \<Longrightarrow> f1 b"
    and "\<And>a b. a \<le> b \<Longrightarrow> f2 b \<Longrightarrow> f2 a"
  shows "filter_traverse_aux t f1 f2 [] = filter (both f1 f2) (inorder_aux t)"
  using assms(1)
proof (induction t)
  case NoneNode
  show ?case by simp
next
  case (TreeNode k i l r)
  have l: "filter_traverse_aux l f1 f2 [] = filter (both f1 f2) (inorder_aux l)"
    and r: "filter_traverse_aux r f1 f2 [] = filter (both f1 f2) (inorder_aux r)"
    using TreeNode by simp_all
  have nl: "filter (both f1 f2) (inorder_aux l) = []" if "\<not> f1 k"
  proof -
    have "\<not> f1 x" if "x \<in> keys_of l" for x
    proof
      assume "f1 x"
      from that TreeNode.prems have "x \<le> k" by auto
      from assms(2) [OF this \<open>f1 x\<close>] \<open>\<not> f1 k\<close> show False by simp
    qed
    then show ?thesis
      unfolding filter_empty_conv both_def set_inorder_aux [symmetric] by auto
  qed
  have nr: "filter (both f1 f2) (inorder_aux r) = []" if "\<not> f2 k"
  proof -
    have "\<not> f2 x" if "x \<in> keys_of r" for x
    proof
      assume "f2 x"
      from that TreeNode.prems have "k \<le> x" by auto
      from assms(3) [OF this \<open>f2 x\<close>] \<open>\<not> f2 k\<close> show False by simp
    qed
    then show ?thesis
      unfolding filter_empty_conv both_def set_inorder_aux [symmetric] by auto
  qed
  have n: "filter (both f1 f2) (inorder_aux (TreeNode k i l r)) =
      filter (both f1 f2) (inorder_aux l) @ (if f1 k \<and> f2 k then [(k, i)] else [])
        @ filter (both f1 f2) (inorder_aux r)"
    by (simp add: both_def)
  show ?case
    unfolding filter_traverse_aux_node n l r using nl nr by simp
qed

lemma sorted_inorder_aux: "bst_inv t \<Longrightarrow> sorted_wrt (<) (map fst (inorder_aux t))"
proof (induction t)
  case NoneNode
  show ?case by simp
next
  case (TreeNode k i l r)
  then show ?case
    by (auto simp: sorted_wrt_append set_inorder_aux [symmetric] dest: order.strict_trans)
qed


section \<open>The Builder: auxiliary facts\<close>


lemma set_pair_simp [simp]: "set_pair (k, i) self = setitem self k i"
  by (simp add: set_pair_def)

lemma ins_pair_simp [simp]: "ins_pair (k, i) t = insert_aux t k i"
  by (simp add: ins_pair_def)

lemma keys_of_insert_aux: "keys_of (insert_aux t k i) = insert k (keys_of t)"
  by (induction t) auto

lemma bst_inv_insert_aux: "bst_inv t \<Longrightarrow> bst_inv (insert_aux t k i)"
  by (induction t) (auto simp: keys_of_insert_aux)

lemma bst_inv_fold: "bst_inv t \<Longrightarrow> bst_inv (fold ins_pair es t)"
  by (induction es arbitrary: t) (auto simp: bst_inv_insert_aux)

lemma root_fold_set_pair: "root (fold set_pair es self) = fold ins_pair es (root self)"
  by (induction es arbitrary: self) (auto simp: setitem_def)

lemma build_subtree_aux_fold:
  "0 \<le> start \<Longrightarrow> endi < int (length elements) \<Longrightarrow>
   build_subtree_aux self elements start endi =
     Inr (fold set_pair (insertion_order elements start endi) self)"
proof (induction self elements start endi rule: build_subtree_aux.induct)
  case (1 self elements start endi)
  show ?case
  proof (cases "start > endi")
    case True
    then show ?thesis
      by (simp add: build_subtree_aux.simps [of self elements start endi]
          insertion_order.simps [of elements start endi])
  next
    case False
    define mid where "mid = (start + endi) div 2"
    have mid: "start \<le> mid" "mid \<le> endi" using False by (auto simp: mid_def)
    then have inr: "0 \<le> mid \<and> mid < int (length elements)" using "1.prems" by auto
    obtain key item where e: "elements ! nat mid = (key, item)" by (cases "elements ! nat mid")
    have g: "getitem_list elements mid = Inr (key, item)"
      using inr e by (simp add: getitem_list_def)
    have ih1: "build_subtree_aux (setitem self key item) elements start (mid - 1) =
        Inr (fold set_pair (insertion_order elements start (mid - 1)) (setitem self key item))"
      using "1.IH"(1) [OF False mid_def g refl] "1.prems" mid by simp
    have ih2: "build_subtree_aux s1 elements (mid + 1) endi =
        Inr (fold set_pair (insertion_order elements (mid + 1) endi) s1)"
      if "s1 = fold set_pair (insertion_order elements start (mid - 1)) (setitem self key item)"
      for s1
      using "1.IH"(2) [OF False mid_def g refl ih1 [folded that]] "1.prems" mid by simp
    show ?thesis
      using False g ih1 ih2
      by (simp add: build_subtree_aux.simps [of self elements start endi]
          insertion_order.simps [of elements start endi] mid_def [symmetric])
  qed
qed

lemma insertion_order_set:
  "0 \<le> start \<Longrightarrow> endi < int (length elements) \<Longrightarrow>
   set (insertion_order elements start endi) = (\<lambda>j. elements ! nat j) ` {start..endi}"
proof (induction elements start endi rule: insertion_order.induct)
  case (1 elements start endi)
  show ?case
  proof (cases "start > endi")
    case True
    then show ?thesis by (simp add: insertion_order.simps [of elements start endi])
  next
    case False
    define mid where "mid = (start + endi) div 2"
    have mid: "start \<le> mid" "mid \<le> endi" using False by (auto simp: mid_def)
    then have inr: "0 \<le> mid \<and> mid < int (length elements)" using "1.prems" by auto
    obtain key item where e: "elements ! nat mid = (key, item)" by (cases "elements ! nat mid")
    have g: "getitem_list elements mid = Inr (key, item)"
      using inr e by (simp add: getitem_list_def)
    have ih1: "set (insertion_order elements start (mid - 1)) =
        (\<lambda>j. elements ! nat j) ` {start..mid - 1}"
      using "1.IH"(1) [OF False mid_def g refl] "1.prems" mid by simp
    have ih2: "set (insertion_order elements (mid + 1) endi) =
        (\<lambda>j. elements ! nat j) ` {mid + 1..endi}"
      using "1.IH"(2) [OF False mid_def g refl] "1.prems" mid by simp
    have split: "{start..endi} = insert mid ({start..mid - 1} \<union> {mid + 1..endi})"
      using mid by auto
    show ?thesis
      using False g
      by (simp add: insertion_order.simps [of elements start endi] mid_def [symmetric]
          ih1 ih2 split e image_Un)
  qed
qed



lemma fold_ins_pair_node:
  "k \<notin> fst ` set es \<Longrightarrow>
   fold ins_pair es (TreeNode k i l r) =
     TreeNode k i (fold ins_pair (filter (\<lambda>e. fst e < k) es) l)
                  (fold ins_pair (filter (\<lambda>e. k < fst e) es) r)"
proof (induction es arbitrary: l r)
  case Nil
  show ?case by simp
next
  case (Cons e es)
  obtain a b where e: "e = (a, b)" by (cases e)
  from Cons.prems e have ne: "a \<noteq> k" and rest: "k \<notin> fst ` set es" by auto
  show ?case
  proof (cases "a < k")
    case True
    then have "\<not> k < a" by simp
    with True show ?thesis using Cons.IH [OF rest] e by simp
  next
    case False
    with ne have "k < a" by simp
    then have "\<not> a < k" by simp
    with \<open>k < a\<close> show ?thesis using Cons.IH [OF rest] e by simp
  qed
qed

lemma fold_ins_pair_split:
  assumes "\<forall>e \<in> set ls. fst e < k" and "\<forall>e \<in> set rs. k < fst e"
  shows "fold ins_pair ((k, i) # ls @ rs) NoneNode =
           TreeNode k i (fold ins_pair ls NoneNode) (fold ins_pair rs NoneNode)"
    and "fold ins_pair ((k, i) # rs @ ls) NoneNode =
           TreeNode k i (fold ins_pair ls NoneNode) (fold ins_pair rs NoneNode)"
proof -
  have fl: "filter (\<lambda>e. fst e < k) ls = ls" "filter (\<lambda>e. k < fst e) ls = []"
    using assms(1) by (auto simp: filter_empty_conv)
  have fr: "filter (\<lambda>e. fst e < k) rs = []" "filter (\<lambda>e. k < fst e) rs = rs"
    using assms(2) by (auto simp: filter_empty_conv)
  have n1: "k \<notin> fst ` set (ls @ rs)" and n2: "k \<notin> fst ` set (rs @ ls)"
    using assms by auto
  show "fold ins_pair ((k, i) # ls @ rs) NoneNode =
           TreeNode k i (fold ins_pair ls NoneNode) (fold ins_pair rs NoneNode)"
    using fold_ins_pair_node [OF n1, of i NoneNode NoneNode] by (simp add: fl fr)
  show "fold ins_pair ((k, i) # rs @ ls) NoneNode =
           TreeNode k i (fold ins_pair ls NoneNode) (fold ins_pair rs NoneNode)"
    using fold_ins_pair_node [OF n2, of i NoneNode NoneNode] by (simp add: fl fr)
qed

lemma strict_keys_nth:
  assumes "sorted_wrt (<) (map fst elements)" and "0 \<le> a" "a < b" "b < int (length elements)"
  shows "fst (elements ! nat a) < fst (elements ! nat b)"
proof -
  have "nat a < nat b" "nat b < length (map fst elements)" using assms by auto
  from sorted_wrt_nth_less [OF assms(1) this] show ?thesis using assms by simp
qed

lemma fold_insertion_order_balanced:
  "sorted_wrt (<) (map fst elements) \<Longrightarrow> 0 \<le> start \<Longrightarrow> endi < int (length elements) \<Longrightarrow>
   fold ins_pair (insertion_order elements start endi) NoneNode = balanced elements start endi"
proof (induction elements start endi rule: insertion_order.induct)
  case (1 elements start endi)
  show ?case
  proof (cases "start > endi")
    case True
    then show ?thesis
      by (simp add: insertion_order.simps [of elements start endi]
          balanced.simps [of elements start endi])
  next
    case False
    define mid where "mid = (start + endi) div 2"
    have mid: "start \<le> mid" "mid \<le> endi" using False by (auto simp: mid_def)
    then have inr: "0 \<le> mid \<and> mid < int (length elements)" using "1.prems" by auto
    obtain key item where e: "elements ! nat mid = (key, item)" by (cases "elements ! nat mid")
    have g: "getitem_list elements mid = Inr (key, item)"
      using inr e by (simp add: getitem_list_def)
    let ?L = "insertion_order elements start (mid - 1)"
    let ?R = "insertion_order elements (mid + 1) endi"
    have ih1: "fold ins_pair ?L NoneNode = balanced elements start (mid - 1)"
      using "1.IH"(1) [OF False mid_def g refl] "1.prems" mid by simp
    have ih2: "fold ins_pair ?R NoneNode = balanced elements (mid + 1) endi"
      using "1.IH"(2) [OF False mid_def g refl] "1.prems" mid by simp
    have sl: "set ?L = (\<lambda>j. elements ! nat j) ` {start..mid - 1}"
      using insertion_order_set [of start "mid - 1" elements] "1.prems" mid by simp
    have sr: "set ?R = (\<lambda>j. elements ! nat j) ` {mid + 1..endi}"
      using insertion_order_set [of "mid + 1" endi elements] "1.prems" mid by simp
    have lt: "\<forall>x \<in> set ?L. fst x < key"
    proof
      fix x assume "x \<in> set ?L"
      then obtain j where j: "start \<le> j" "j \<le> mid - 1" "x = elements ! nat j"
        unfolding sl by auto
      from strict_keys_nth [OF "1.prems"(1), of j mid] j "1.prems" inr e
      show "fst x < key" by simp
    qed
    have gt: "\<forall>x \<in> set ?R. key < fst x"
    proof
      fix x assume "x \<in> set ?R"
      then obtain j where j: "mid + 1 \<le> j" "j \<le> endi" "x = elements ! nat j"
        unfolding sr by auto
      from strict_keys_nth [OF "1.prems"(1), of mid j] j "1.prems" inr e
      show "key < fst x" by simp
    qed
    have io: "insertion_order elements start endi = (key, item) # ?L @ ?R"
      using False g by (simp add: insertion_order.simps [of elements start endi] mid_def [symmetric])
    have bal: "balanced elements start endi =
        TreeNode key item (balanced elements start (mid - 1)) (balanced elements (mid + 1) endi)"
      using False g by (simp add: balanced.simps [of elements start endi] mid_def [symmetric])
    show ?thesis
      unfolding io bal fold_ins_pair_split(1) [OF lt gt] ih1 ih2 ..
  qed
qed

lemma inorder_balanced:
  "0 \<le> start \<Longrightarrow> endi < int (length elements) \<Longrightarrow>
   inorder_aux (balanced elements start endi) = map (\<lambda>j. elements ! nat j) [start..endi]"
proof (induction elements start endi rule: balanced.induct)
  case (1 elements start endi)
  show ?case
  proof (cases "start > endi")
    case True
    then show ?thesis by (simp add: balanced.simps [of elements start endi])
  next
    case False
    define mid where "mid = (start + endi) div 2"
    have mid: "start \<le> mid" "mid \<le> endi" using False by (auto simp: mid_def)
    then have inr: "0 \<le> mid \<and> mid < int (length elements)" using "1.prems" by auto
    obtain key item where e: "elements ! nat mid = (key, item)" by (cases "elements ! nat mid")
    have g: "getitem_list elements mid = Inr (key, item)"
      using inr e by (simp add: getitem_list_def)
    have ih1: "inorder_aux (balanced elements start (mid - 1)) =
        map (\<lambda>j. elements ! nat j) [start..mid - 1]"
      using "1.IH"(1) [OF False mid_def g refl] "1.prems" mid by simp
    have ih2: "inorder_aux (balanced elements (mid + 1) endi) =
        map (\<lambda>j. elements ! nat j) [mid + 1..endi]"
      using "1.IH"(2) [OF False mid_def g refl] "1.prems" mid by simp
    have bal: "balanced elements start endi =
        TreeNode key item (balanced elements start (mid - 1)) (balanced elements (mid + 1) endi)"
      using False g by (simp add: balanced.simps [of elements start endi] mid_def [symmetric])
    have split: "[start..endi] = [start..mid - 1] @ mid # [mid + 1..endi]"
      using mid by (rule upto_split3)
    show ?thesis
      unfolding bal split by (simp add: ih1 ih2 e)
  qed
qed

lemma map_nth_upto: "map (\<lambda>j. elements ! nat j) [0..int (length elements) - 1] = elements"
  by (rule nth_equalityI) (auto simp: nth_upto)

lemma height_balanced:
  "0 \<le> start \<Longrightarrow> endi < int (length elements) \<Longrightarrow> start \<le> endi + 1 \<Longrightarrow>
   height (balanced elements start endi) = ceillog2 (nat (endi - start + 2))"
proof (induction elements start endi rule: balanced.induct)
  case (1 elements start endi)
  show ?case
  proof (cases "start > endi")
    case True
    with "1.prems" have "endi - start + 2 = 1" by simp
    with True show ?thesis by (simp add: balanced.simps [of elements start endi])
  next
    case False
    define mid where "mid = (start + endi) div 2"
    have mid: "start \<le> mid" "mid \<le> endi" using False by (auto simp: mid_def)
    then have inr: "0 \<le> mid \<and> mid < int (length elements)" using "1.prems" by auto
    obtain key item where e: "elements ! nat mid = (key, item)" by (cases "elements ! nat mid")
    have g: "getitem_list elements mid = Inr (key, item)"
      using inr e by (simp add: getitem_list_def)
    have ih1: "height (balanced elements start (mid - 1)) = ceillog2 (nat (mid - 1 - start + 2))"
      using "1.IH"(1) [OF False mid_def g refl] "1.prems" mid by simp
    have ih2: "height (balanced elements (mid + 1) endi) = ceillog2 (nat (endi - (mid + 1) + 2))"
      using "1.IH"(2) [OF False mid_def g refl] "1.prems" mid by simp
    have bal: "balanced elements start endi =
        TreeNode key item (balanced elements start (mid - 1)) (balanced elements (mid + 1) endi)"
      using False g by (simp add: balanced.simps [of elements start endi] mid_def [symmetric])
    define n where "n = nat (endi - start + 2)"
    have n2: "2 \<le> n" using False by (simp add: n_def)
    have r: "nat (endi - (mid + 1) + 2) = (n + 1) div 2"
      using False unfolding n_def mid_def by (simp add: nat_div_distrib nat_add_distrib) linarith?
    have l: "nat (mid - 1 - start + 2) \<le> (n + 1) div 2"
      using False unfolding n_def mid_def by (simp add: nat_div_distrib nat_add_distrib) linarith?
    have mx: "max (ceillog2 (nat (mid - 1 - start + 2))) (ceillog2 ((n + 1) div 2)) =
        ceillog2 ((n + 1) div 2)"
      using ceillog2_mono [OF l] by simp
    have rec: "ceillog2 n = ceillog2 ((n + 1) div 2) + 1"
      using n2 by (subst ceillog2_rec) simp
    have "height (balanced elements start endi) =
        max (ceillog2 (nat (mid - 1 - start + 2))) (ceillog2 ((n + 1) div 2)) + 1"
      unfolding bal by (simp only: height.simps ih1 ih2 r)
    also have "\<dots> = ceillog2 n" by (simp only: mx rec)
    finally show ?thesis unfolding n_def .
  qed
qed



lemma mset_merge_by: "mset (merge_by key l1 l2) = mset l1 + mset l2"
  by (induction key l1 l2 rule: merge_by.induct) auto

lemma set_merge_by: "set (merge_by key l1 l2) = set l1 \<union> set l2"
  by (induction key l1 l2 rule: merge_by.induct) auto

lemma sorted_merge_by:
  "sorted (map key l1) \<Longrightarrow> sorted (map key l2) \<Longrightarrow> sorted (map key (merge_by key l1 l2))"
  by (induction key l1 l2 rule: merge_by.induct) (auto simp: set_merge_by)

lemma mset_mergesort: "mset (mergesort l key) = mset l"
proof (induction l key rule: mergesort.induct)
  case (1 l key)
  show ?case
  proof (cases "length l \<le> 1")
    case True
    then show ?thesis by (simp add: mergesort.simps [of l key])
  next
    case False
    have "mset (mergesort l key) =
        mset (take (length l div 2) l) + mset (drop (length l div 2) l)"
      using False "1.IH" by (simp add: mergesort.simps [of l key] mset_merge_by)
    also have "\<dots> = mset (take (length l div 2) l @ drop (length l div 2) l)"
      by (simp only: mset_append)
    finally show ?thesis by simp
  qed
qed

lemma sorted_mergesort: "sorted (map key (mergesort l key))"
proof (induction l key rule: mergesort.induct)
  case (1 l key)
  show ?case
  proof (cases "length l \<le> 1")
    case True
    then have "l = [] \<or> (\<exists>a. l = [a])" by (cases l) auto
    with True show ?thesis by (auto simp: mergesort.simps [of l key])
  next
    case False
    then show ?thesis
      using "1.IH" by (simp add: mergesort.simps [of l key] sorted_merge_by)
  qed
qed

lemma length_mergesort: "length (mergesort l key) = length l"
  using mset_mergesort [of l key] by (metis size_mset)

lemma strict_sort_elements:
  assumes "distinct (map fst elements)"
  shows "sorted_wrt (<) (map fst (sort_elements elements))"
proof -
  have "mset (map fst (sort_elements elements)) = mset (map fst elements)"
    by (simp add: sort_elements_def mset_mergesort)
  then have "distinct (map fst (sort_elements elements))"
    using assms by (metis mset_eq_imp_distinct_iff)
  moreover have "sorted (map fst (sort_elements elements))"
    by (simp add: sort_elements_def sorted_mergesort)
  ultimately show ?thesis by (simp add: strict_sorted_iff)
qed

lemma build_balanced_tree_fold:
  "build_balanced_tree self elements =
     Inr (fold set_pair (insertion_order elements 0 (int (length elements) - 1)) self)"
  unfolding build_balanced_tree_def by (rule build_subtree_aux_fold) simp_all

lemma BetterBST_fold:
  "BetterBST elements =
     Inr (fold set_pair (insertion_order (sort_elements elements) 0
            (int (length (sort_elements elements)) - 1)) empty_tree)"
  unfolding BetterBST_def Let_def by (rule build_balanced_tree_fold)

lemma BetterBST_bst_inv:
  assumes "BetterBST elements = Inr T"
  shows "bst_inv (root T)"
proof -
  from assms have "T = fold set_pair (insertion_order (sort_elements elements) 0
            (int (length (sort_elements elements)) - 1)) empty_tree"
    by (simp add: BetterBST_fold)
  then show ?thesis
    by (simp add: root_fold_set_pair bst_inv_fold empty_tree_def)
qed

lemma subseq_mem: "subseq xs ys \<Longrightarrow> x \<in> set xs \<Longrightarrow> x \<in> set ys"
proof -
  assume a: "subseq xs ys" and b: "x \<in> set xs"
  from list_emb_set [OF a b] obtain y where "y \<in> set ys" and "x = y" by blast
  then show ?thesis by simp
qed

lemma subseq_sorted_wrt: "subseq xs ys \<Longrightarrow> sorted_wrt R ys \<Longrightarrow> sorted_wrt R xs"
proof (induction rule: list_emb.induct)
  case (list_emb_Nil ys)
  show ?case by simp
next
  case (list_emb_Cons xs ys y)
  then show ?case by simp
next
  case (list_emb_Cons2 x y xs ys)
  then show ?case by (auto dest: subseq_mem)
qed

section \<open>The claims\<close>

text \<open>
  C1. For every tree built by the Builder and every pair of predicates of which the first
  is monotone non-decreasing and the second monotone non-increasing in the key order,
  \<open>filter_keys\<close> returns exactly the entries of the tree's in-order traversal for which both
  predicates hold, in the order of the traversal, which is strictly ascending in the keys.
\<close>

theorem filter_keys_correct:
  assumes "\<And>a b. a \<le> b \<Longrightarrow> filter_func1 a \<Longrightarrow> filter_func1 b"
    and "\<And>a b. a \<le> b \<Longrightarrow> filter_func2 b \<Longrightarrow> filter_func2 a"
  shows "\<exists>T. BetterBST elements = Inr T
           \<and> filter_keys T filter_func1 filter_func2 =
               filter (\<lambda>e. filter_func1 (fst e) \<and> filter_func2 (fst e)) (inorder T)
           \<and> sorted_wrt (<) (map fst (inorder T))
           \<and> sorted_wrt (<) (map fst (filter_keys T filter_func1 filter_func2))"
proof -
  obtain T where T: "BetterBST elements = Inr T" by (simp add: BetterBST_fold)
  have inv: "bst_inv (root T)" by (rule BetterBST_bst_inv [OF T])
  have eq: "filter_keys T filter_func1 filter_func2 =
      filter (\<lambda>e. filter_func1 (fst e) \<and> filter_func2 (fst e)) (inorder T)"
    unfolding filter_keys_def inorder_def
    using filter_traverse_aux_exact [OF inv assms] by (simp add: both_def)
  have s: "sorted_wrt (<) (map fst (inorder T))"
    unfolding inorder_def by (rule sorted_inorder_aux [OF inv])
  have "sorted_wrt (<) (map fst (filter_keys T filter_func1 filter_func2))"
    unfolding eq using s by (simp add: sorted_wrt_map sorted_wrt_filter)
  with T eq s show ?thesis by blast
qed

theorem filter_keys_correct_witness:
  "\<exists>T. BetterBST [(5::int, ''e''), (1, ''a''), (3, ''c'')] = Inr T
     \<and> filter_keys T (\<lambda>k. 1 < k) (\<lambda>k. k < 5) =
         filter (\<lambda>e. 1 < fst e \<and> fst e < 5) (inorder T)
     \<and> sorted_wrt (<) (map fst (inorder T))
     \<and> sorted_wrt (<) (map fst (filter_keys T (\<lambda>k. 1 < k) (\<lambda>k. k < 5)))"
  by (rule filter_keys_correct) simp_all

text \<open>
  C8. For every tree and every pair of arbitrary predicates, every pair in the result of
  \<open>filter_keys\<close> satisfies both predicates, and the result is a subsequence of the
  qualifying entries of the in-order traversal: entries can be missed, none is added and
  none is out of order. On a tree that satisfies the ordering invariant of the data model
  the keys of the result are strictly ascending.
\<close>

theorem filter_keys_sound:
  "(\<forall>e \<in> set (filter_keys T filter_func1 filter_func2).
        filter_func1 (fst e) \<and> filter_func2 (fst e))
   \<and> subseq (filter_keys T filter_func1 filter_func2)
        (filter (\<lambda>e. filter_func1 (fst e) \<and> filter_func2 (fst e)) (inorder T))
   \<and> (bst_inv (root T) \<longrightarrow>
        sorted_wrt (<) (map fst (filter_keys T filter_func1 filter_func2)))"
proof -
  let ?P = "\<lambda>e. filter_func1 (fst e) \<and> filter_func2 (fst e)"
  have sub: "subseq (filter_keys T filter_func1 filter_func2) (filter ?P (inorder T))"
    unfolding filter_keys_def inorder_def
    using filter_traverse_aux_subseq [of "root T" filter_func1 filter_func2]
    by (simp add: both_def)
  have mem: "\<forall>e \<in> set (filter_keys T filter_func1 filter_func2). ?P e"
  proof
    fix e assume "e \<in> set (filter_keys T filter_func1 filter_func2)"
    from subseq_mem [OF sub this] show "?P e" by simp
  qed
  have "sorted_wrt (<) (map fst (filter_keys T filter_func1 filter_func2))"
    if "bst_inv (root T)"
  proof -
    have "sorted_wrt (<) (map fst (filter ?P (inorder T)))"
      using sorted_inorder_aux [OF that]
      by (simp add: inorder_def sorted_wrt_map sorted_wrt_filter)
    moreover have "subseq (map fst (filter_keys T filter_func1 filter_func2))
        (map fst (filter ?P (inorder T)))"
      using sub by (rule subseq_map)
    ultimately show ?thesis by (rule subseq_sorted_wrt [rotated])
  qed
  with sub mem show ?thesis by blast
qed

end
